theory Spec2Isabelle
  imports Complex_Main "HOL-Library.Sublist" "HOL-Library.Log_Nat"
begin

section \<open>JavaScript strings\<close>

text \<open>
  A JavaScript string is a sequence of UTF-16 code units. The model writes a string as a
  \<^typ>\<open>string\<close> (a list of \<^typ>\<open>char\<close>), one \<^typ>\<open>char\<close> per code unit, which covers
  the code units U+0000 to U+00FF; \<open>length\<close> is the \<open>.length\<close> of the source. Every
  character the program looks at (\<open>/\<close>, \<open>.\<close>, NUL, CR, LF, the letters of the literals) is
  in that range.
\<close>

text \<open>\<open>s.includes(sub)\<close>: \<open>sub\<close> occurs in \<open>s\<close> at some position.\<close>

fun js_includes :: "string \<Rightarrow> string \<Rightarrow> bool" where
  "js_includes [] sub = (sub = [])"
| "js_includes (c # cs) sub = (prefix sub (c # cs) \<or> js_includes cs sub)"

text \<open>\<open>s.split(sep)\<close> for a one-character separator; \<open>"".split("/")\<close> is \<open>[""]\<close>.\<close>

fun js_split :: "char \<Rightarrow> string \<Rightarrow> string list" where
  "js_split sep [] = [[]]"
| "js_split sep (c # cs) =
     (if c = sep then [] # js_split sep cs
      else (case js_split sep cs of
              [] \<Rightarrow> [[c]]
            | l # ls \<Rightarrow> (c # l) # ls))"

text \<open>
  \<open>s.split(/\r?\n/)\<close>: the pattern matches a line feed, together with the carriage
  return right before it when there is one; a carriage return that no line feed follows
  is an ordinary character. The pattern never matches the empty string, so the pieces
  are the stretches between the matches, the empty ones included.
\<close>

fun split_lines :: "string \<Rightarrow> string list" where
  "split_lines [] = [[]]"
| "split_lines [c] = (if c = CHR 0x0A then [[], []] else [[c]])"
| "split_lines (c # d # cs) =
     (if c = CHR 0x0D \<and> d = CHR 0x0A then [] # split_lines cs
      else if c = CHR 0x0A then [] # split_lines (d # cs)
      else (case split_lines (d # cs) of
              [] \<Rightarrow> [[c]]
            | l # ls \<Rightarrow> (c # l) # ls))"

text \<open>\<open>s.endsWith(suf)\<close> is \<^term>\<open>suffix suf s\<close>; \<open>s.startsWith(p)\<close> is \<^term>\<open>prefix p s\<close>.\<close>

text \<open>
  \<open>s.toLowerCase()\<close> on the code units below U+0100: the letters A to Z and the
  Latin-1 capitals U+00C0 to U+00DE (U+00D7, the multiplication sign, apart) move up
  by 32; every other code unit of that range is its own lower case.
\<close>

definition toLowerChar :: "char \<Rightarrow> char" where
  "toLowerChar c =
     (let n = (of_char c :: nat)
      in if (65 \<le> n \<and> n \<le> 90) \<or> (192 \<le> n \<and> n \<le> 222 \<and> n \<noteq> 215)
         then char_of (n + 32) else c)"

definition toLowerCase :: "string \<Rightarrow> string" where
  "toLowerCase s = map toLowerChar s"

text \<open>
  \<open>s.replace(pat, "")\<close> for a string pattern: the first occurrence of \<open>pat\<close> is removed,
  the rest of \<open>s\<close> stays.
\<close>

fun remove_first :: "string \<Rightarrow> string \<Rightarrow> string" where
  "remove_first pat [] = []"
| "remove_first pat (c # cs) =
     (if prefix pat (c # cs) then drop (length pat) (c # cs)
      else c # remove_first pat cs)"

section \<open>parseRepoIdentifier\<close>

record repositoryRef =
  owner :: string
  repo :: string

datatype error = Error string

definition InvalidIdentifier :: error where
  "InvalidIdentifier = Error
     ''Invalid repository identifier. Please use a GitHub URL (https://github.com/owner/repo) or owner/repo format.''"

text \<open>
  The regular expression \<open>/^https?:\/\/(www\.)?github\.com\//\<close>, matched at position 0
  (the pattern is anchored and has no flags). A matcher takes the text still to read and
  returns what is left after the match; \<open>re_lit\<close> reads a literal and goes on with the
  continuation, \<open>re_opt\<close> is the greedy \<open>?\<close>: it tries the literal first and, when the
  rest of the pattern fails after it, backtracks and tries without.
\<close>

definition re_lit :: "string \<Rightarrow> (string \<Rightarrow> string option) \<Rightarrow> string \<Rightarrow> string option" where
  "re_lit p k s = (if prefix p s then k (drop (length p) s) else None)"

definition re_opt :: "string \<Rightarrow> (string \<Rightarrow> string option) \<Rightarrow> string \<Rightarrow> string option" where
  "re_opt p k s = (case re_lit p k s of Some r \<Rightarrow> Some r | None \<Rightarrow> k s)"

definition match_url_prefix :: "string \<Rightarrow> string option" where
  "match_url_prefix =
     re_lit ''http'' (re_opt ''s'' (re_lit ''://'' (re_opt ''www.'' (re_lit ''github.com/'' Some))))"

text \<open>\<open>.replace(/^https?:\/\/(www\.)?github\.com\//, "")\<close>\<close>

definition strip_url_prefix :: "string \<Rightarrow> string" where
  "strip_url_prefix s = (case match_url_prefix s of Some rest \<Rightarrow> rest | None \<Rightarrow> s)"

text \<open>\<open>.replace(/\.git$/, "")\<close>\<close>

definition strip_git_suffix :: "string \<Rightarrow> string" where
  "strip_git_suffix s = (if suffix ''.git'' s then take (length s - 4) s else s)"

text \<open>
  The function returns \<open>{owner, repo}\<close> or throws the one \<open>Error\<close> of its last
  statement: \<^term>\<open>Inr\<close> the reference, \<^term>\<open>Inl\<close> the error. In the second branch the
  destructuring \<open>[owner, repo] = ...split("/")\<close> takes the first two segments, and
  \<open>owner && repo\<close> holds when both are non-empty strings.
\<close>

definition parseRepoIdentifier :: "string \<Rightarrow> error + repositoryRef" where
  "parseRepoIdentifier repoIdentifier =
     (if js_includes repoIdentifier ''github.com'' then
        (let urlPath = js_split CHR ''/'' (strip_git_suffix (strip_url_prefix repoIdentifier))
         in if length urlPath \<ge> 2
            then Inr \<lparr>owner = urlPath ! 0, repo = urlPath ! 1\<rparr>
            else Inl InvalidIdentifier)
      else if js_includes repoIdentifier ''/'' then
        (case js_split CHR ''/'' repoIdentifier of
           o1 # r1 # _ \<Rightarrow>
             if o1 \<noteq> [] \<and> r1 \<noteq> [] then Inr \<lparr>owner = o1, repo = r1\<rparr>
             else Inl InvalidIdentifier
         | _ \<Rightarrow> Inl InvalidIdentifier)
      else Inl InvalidIdentifier)"


section \<open>isValidTextContent\<close>

text \<open>
  JavaScript numbers are IEEE 754 doubles. The function divides two non-negative
  integers (a match count and a length, both below \<open>2^53\<close> and so exact as doubles) and
  compares the quotient with the literal \<open>0.01\<close>. A double is \<open>NaN\<close>, infinite, or
  finite; a finite double is written as the rational number it denotes.

  \<open>round_double a b\<close> is the double nearest to \<open>a / b\<close> for positive \<open>a\<close> and \<open>b\<close>: with
  \<open>e\<close> the binary exponent of the quotient (\<open>2^e \<le> a / b < 2^(e+1)\<close>), the quotient is
  scaled to a 53-bit significand, rounded to the nearest integer with ties to even, and
  scaled back. Quotients of two positive integers below \<open>2^53\<close> lie between \<open>2^-53\<close> and
  \<open>2^53\<close>, inside the normal range of a double, so the exponent is never clamped. Both
  the division and the reading of a decimal literal round this way.
\<close>

datatype jsnumber = NaN | PosInf | Num rat

definition round_half_even :: "rat \<Rightarrow> int" where
  "round_half_even y =
     (let f = \<lfloor>y\<rfloor>; r = y - of_int f
      in if r < 1 / 2 then f
         else if 1 / 2 < r then f + 1
         else if even f then f else f + 1)"

definition binary_exponent :: "nat \<Rightarrow> nat \<Rightarrow> int" where
  "binary_exponent a b =
     (let d = bitlen (int a) - bitlen (int b)
      in if (2::rat) powi d \<le> of_nat a / of_nat b then d else d - 1)"

definition round_double :: "nat \<Rightarrow> nat \<Rightarrow> rat" where
  "round_double a b =
     (let e = binary_exponent a b
      in of_int (round_half_even (of_nat a / of_nat b * 2 powi (52 - e))) * 2 powi (e - 52))"

text \<open>\<open>a / b\<close> on non-negative integers: \<open>0 / 0\<close> is \<open>NaN\<close>, \<open>a / 0\<close> is \<open>Infinity\<close>.\<close>

definition js_div :: "nat \<Rightarrow> nat \<Rightarrow> jsnumber" where
  "js_div a b =
     (if b = 0 then (if a = 0 then NaN else PosInf)
      else if a = 0 then Num 0
      else Num (round_double a b))"

text \<open>\<open>x < y\<close> on non-negative doubles: false as soon as one side is \<open>NaN\<close>.\<close>

fun js_less :: "jsnumber \<Rightarrow> jsnumber \<Rightarrow> bool" where
  "js_less (Num x) (Num y) = (x < y)"
| "js_less (Num x) PosInf = True"
| "js_less _ _ = False"

text \<open>\<open>(content.match(/\0/g) || []).length\<close>: the number of NUL code units.\<close>

definition null_count :: "string \<Rightarrow> nat" where
  "null_count content = length (filter (\<lambda>c. c = CHR 0x00) content)"

definition isValidTextContent :: "string \<Rightarrow> bool" where
  "isValidTextContent content =
     (let nullByteRatio = js_div (null_count content) (length content)
      in js_less nullByteRatio (Num (round_double 1 100)))"

section \<open>addFileContent\<close>

text \<open>
  A \<open>Paragraph\<close> of the document library is the record of the options it is built
  from; an option the call leaves out is \<^term>\<open>None\<close> (\<^term>\<open>False\<close> for \<open>bold\<close>).
\<close>

datatype headingLevel = HEADING_1 | HEADING_2

datatype underlineType = SINGLE

record docx_paragraph =
  heading :: "headingLevel option"
  ptext :: string
  spacing_before :: "nat option"
  spacing_after :: "nat option"
  bold :: bool
  underline :: "underlineType option"

text \<open>\<open>new Paragraph({ text: t })\<close>\<close>

definition text_paragraph :: "string \<Rightarrow> docx_paragraph" where
  "text_paragraph t =
     \<lparr>heading = None, ptext = t, spacing_before = None, spacing_after = None,
      bold = False, underline = None\<rparr>"

text \<open>
  \<open>children.push\<close> appends at the end; the function returns the array it has filled.
  \<open>line || " "\<close> is the line, or one space when the line is empty.
\<close>

definition addFileContent :: "string \<Rightarrow> docx_paragraph list \<Rightarrow> docx_paragraph list" where
  "addFileContent content children =
     children @ map (\<lambda>line. text_paragraph (if line = [] then '' '' else line))
                    (split_lines content)"

section \<open>isBinaryFile\<close>

definition binaryExtensions :: "string list" where
  "binaryExtensions =
     [''.jpg'', ''.jpeg'', ''.png'', ''.gif'', ''.bmp'', ''.ico'', ''.pdf'', ''.exe'',
      ''.dll'', ''.so'', ''.dylib'', ''.zip'', ''.tar'', ''.gz'', ''.rar'', ''.7z'',
      ''.mp3'', ''.mp4'', ''.avi'', ''.mov'', ''.mpg'', ''.ttf'', ''.woff'', ''.class'',
      ''.pyc'', ''.pyd'', ''.o'', ''.obj'']"

definition isBinaryFile :: "string \<Rightarrow> bool" where
  "isBinaryFile filename =
     list_ex (\<lambda>ext. suffix ext (toLowerCase filename)) binaryExtensions"

section \<open>shouldIgnorePath\<close>

text \<open>
  \<open>minimatch\<close> is the glob matcher of an external library. The model takes it as a
  parameter: \<open>minimatch filePath pattern\<close> stands for the call
  \<open>minimatch(filePath, pattern, { matchBase: true })\<close>, a predicate of the path and the
  pattern.
\<close>

fun shouldIgnorePath :: "(string \<Rightarrow> string \<Rightarrow> bool) \<Rightarrow> string \<Rightarrow> string list \<Rightarrow> bool" where
  "shouldIgnorePath minimatch filePath [] = False"
| "shouldIgnorePath minimatch filePath (pattern # rest) =
     (if minimatch filePath pattern then True
      else shouldIgnorePath minimatch filePath rest)"


section \<open>repo2docx: the walk over the archive entries\<close>


text \<open>
  An entry of the archive, as the loop reads it: its name, whether it is a directory,
  and what \<open>entry.getData().toString("utf8")\<close> gives, the decoded content or the error
  it throws.
\<close>

record zipEntry =
  entryName :: string
  isDirectory :: bool
  getData :: "error + string"

text \<open>The variables the loop updates: the document's children and the five counters.\<close>

record walkState =
  children :: "docx_paragraph list"
  processedFiles :: nat
  skippedFilesByIgnore :: nat
  skippedFilesByBinary :: nat
  skippedFilesByValidation :: nat
  skippedFilesByError :: nat

definition heading_paragraph :: "string \<Rightarrow> docx_paragraph" where
  "heading_paragraph cleanPath =
     \<lparr>heading = Some HEADING_2, ptext = cleanPath, spacing_before = Some 400,
      spacing_after = Some 200, bold = True, underline = Some SINGLE\<rparr>"

definition separator_paragraph :: docx_paragraph where
  "separator_paragraph =
     \<lparr>heading = None,
      ptext = ''----------------------------------------------------------------------'',
      spacing_before = None, spacing_after = Some 200, bold = False, underline = None\<rparr>"

text \<open>
  The body of the \<open>try\<close> block for one entry: \<^term>\<open>Inl\<close> when a statement throws,
  \<^term>\<open>Inr\<close> the updated variables otherwise. The statement that can throw is the first
  one, before any variable is written.
\<close>

definition entry_try_block :: "string \<Rightarrow> zipEntry \<Rightarrow> walkState \<Rightarrow> error + walkState" where
  "entry_try_block cleanPath entry st =
     (case getData entry of
        Inl e \<Rightarrow> Inl e
      | Inr content \<Rightarrow>
          if \<not> isValidTextContent content
          then Inr (st\<lparr>skippedFilesByValidation := skippedFilesByValidation st + 1\<rparr>)
          else Inr (st\<lparr>children :=
                          addFileContent content (children st @ [heading_paragraph cleanPath])
                            @ [separator_paragraph],
                        processedFiles := processedFiles st + 1\<rparr>))"

text \<open>One round of the \<open>for\<close> loop; the \<open>catch\<close> clause counts the error and goes on.\<close>

definition process_entry ::
  "(string \<Rightarrow> string \<Rightarrow> bool) \<Rightarrow> string \<Rightarrow> string \<Rightarrow> string list \<Rightarrow> zipEntry \<Rightarrow> walkState \<Rightarrow> walkState" where
  "process_entry minimatch repo_name branch patterns entry st =
     (if \<not> isDirectory entry then
        (let cleanPath = remove_first (repo_name @ ''-'' @ branch @ ''/'') (entryName entry)
         in if shouldIgnorePath minimatch cleanPath patterns
            then st\<lparr>skippedFilesByIgnore := skippedFilesByIgnore st + 1\<rparr>
            else if isBinaryFile cleanPath
            then st\<lparr>skippedFilesByBinary := skippedFilesByBinary st + 1\<rparr>
            else (case entry_try_block cleanPath entry st of
                    Inr st' \<Rightarrow> st'
                  | Inl e \<Rightarrow> st\<lparr>skippedFilesByError := skippedFilesByError st + 1\<rparr>))
      else st)"

text \<open>The loop over \<open>zipEntries\<close>, in order.\<close>

definition walk_entries ::
  "(string \<Rightarrow> string \<Rightarrow> bool) \<Rightarrow> string \<Rightarrow> string \<Rightarrow> string list \<Rightarrow> zipEntry list \<Rightarrow> walkState \<Rightarrow> walkState" where
  "walk_entries minimatch repo_name branch patterns entries st =
     fold (process_entry minimatch repo_name branch patterns) entries st"

text \<open>The variables when the loop starts: the children pushed so far, the counters at 0.\<close>

definition initial_state :: "docx_paragraph list \<Rightarrow> walkState" where
  "initial_state title_page =
     \<lparr>children = title_page, processedFiles = 0, skippedFilesByIgnore = 0,
      skippedFilesByBinary = 0, skippedFilesByValidation = 0, skippedFilesByError = 0\<rparr>"


section \<open>Facts about the string operations\<close>

lemma js_includes_iff: "js_includes s sub \<longleftrightarrow> sublist sub s"
  by (induction s) (auto simp: sublist_Cons_right)

lemma js_includes_char: "js_includes s [c] \<longleftrightarrow> c \<in> set s"
  by (induction s) auto

lemma js_includes_append: "js_includes (p @ sub @ q) sub"
  by (simp add: js_includes_iff)

lemma filter_absent: "c \<notin> set s \<Longrightarrow> filter (\<lambda>x. x = c) s = []"
  by (induction s) auto

lemma js_split_no_sep: "sep \<notin> set s \<Longrightarrow> js_split sep s = [s]"
  by (induction s) auto

lemma js_split_first: "sep \<notin> set a \<Longrightarrow> js_split sep (a @ sep # rest) = a # js_split sep rest"
  by (induction a) auto

lemma suffix_past_char:
  assumes "c \<notin> set p"
  shows "suffix p (a @ c # r) \<longleftrightarrow> suffix p r"
  using assms by (auto simp: suffix_append suffix_Cons)

lemma match_url_prefix_Some:
  "match_url_prefix s = Some r \<Longrightarrow>
     s = ''http://github.com/'' @ r \<or> s = ''https://github.com/'' @ r \<or>
     s = ''http://www.github.com/'' @ r \<or> s = ''https://www.github.com/'' @ r"
  unfolding match_url_prefix_def re_lit_def re_opt_def
  by (auto split: if_splits option.splits simp: prefix_def)

lemma match_url_prefix_forms:
  "match_url_prefix (''http://github.com/'' @ r) = Some r"
  "match_url_prefix (''https://github.com/'' @ r) = Some r"
  "match_url_prefix (''http://www.github.com/'' @ r) = Some r"
  "match_url_prefix (''https://www.github.com/'' @ r) = Some r"
  unfolding match_url_prefix_def re_lit_def re_opt_def
  by simp_all

lemma three_slashes_no_match:
  assumes "length (filter (\<lambda>c. c = CHR ''/'') s) < 3"
  shows "match_url_prefix s = None"
proof (cases "match_url_prefix s")
  case None
  then show ?thesis .
next
  case (Some r)
  from match_url_prefix_Some [OF this] assms show ?thesis
    by auto
qed

lemma strip_git_suffix_append: "strip_git_suffix (s @ ''.git'') = s"
  by (simp add: strip_git_suffix_def suffix_def)

lemma strip_git_suffix_id: "\<not> suffix ''.git'' s \<Longrightarrow> strip_git_suffix s = s"
  by (simp add: strip_git_suffix_def)

lemma bare_form:
  assumes "ow \<noteq> []" "rp \<noteq> []" "CHR ''/'' \<notin> set ow" "CHR ''/'' \<notin> set rp"
    "\<not> suffix ''.git'' rp"
  shows "parseRepoIdentifier (ow @ ''/'' @ rp) = Inr \<lparr>owner = ow, repo = rp\<rparr>"
proof -
  let ?s = "ow @ ''/'' @ rp"
  have sp: "js_split CHR ''/'' ?s = [ow, rp]"
    using assms by (simp add: js_split_first js_split_no_sep)
  have "match_url_prefix ?s = None"
    using assms by (intro three_slashes_no_match) (simp add: filter_absent)
  then have a: "strip_url_prefix ?s = ?s"
    by (simp add: strip_url_prefix_def)
  have "\<not> suffix ''.git'' ?s"
    using assms(5) suffix_past_char [of "CHR ''/''" "''.git''" ow rp] by simp
  then have b: "strip_git_suffix ?s = ?s"
    by (rule strip_git_suffix_id)
  have inc: "js_includes ?s ''/''"
    by (simp add: js_includes_char)
  show ?thesis
    unfolding parseRepoIdentifier_def a b sp using assms(1,2) inc sp
    by (simp del: js_includes.simps)
qed

lemma url_form:
  assumes "CHR ''/'' \<notin> set ow" "CHR ''/'' \<notin> set rp" "\<not> suffix ''.git'' rp"
    and "match_url_prefix (p @ ow @ ''/'' @ rp @ g) = Some (ow @ ''/'' @ rp @ g)"
    and "js_includes (p @ ow @ ''/'' @ rp @ g) ''github.com''"
    and "g = [] \<or> g = ''.git''"
  shows "parseRepoIdentifier (p @ ow @ ''/'' @ rp @ g) = Inr \<lparr>owner = ow, repo = rp\<rparr>"
proof -
  have a: "strip_url_prefix (p @ ow @ ''/'' @ rp @ g) = ow @ ''/'' @ rp @ g"
    using assms(4) by (simp add: strip_url_prefix_def)
  have "\<not> suffix ''.git'' (ow @ ''/'' @ rp)"
    using assms(3) suffix_past_char [of "CHR ''/''" "''.git''" ow rp] by simp
  then have b: "strip_git_suffix (ow @ ''/'' @ rp @ g) = ow @ ''/'' @ rp"
    using assms(6) strip_git_suffix_append [of "ow @ ''/'' @ rp"]
    by (auto simp: strip_git_suffix_id)
  have sp: "js_split CHR ''/'' (ow @ ''/'' @ rp) = [ow, rp]"
    using assms by (simp add: js_split_first js_split_no_sep)
  show ?thesis
    unfolding parseRepoIdentifier_def a b sp using assms(5)
    by (simp del: js_includes.simps)
qed

lemma no_github_no_slash:
  shows "\<not> js_includes s ''github.com'' \<Longrightarrow> CHR ''/'' \<notin> set s \<Longrightarrow>
    parseRepoIdentifier s = Inl InvalidIdentifier"
  unfolding parseRepoIdentifier_def by (simp add: js_includes_char del: js_includes.simps)

lemma shorthand_first_two:
  assumes "\<not> js_includes s ''github.com''" "CHR ''/'' \<notin> set a" "CHR ''/'' \<notin> set b"
    and "s = a @ ''/'' @ b \<or> s = a @ ''/'' @ b @ ''/'' @ rest"
  shows "parseRepoIdentifier s =
    (if a \<noteq> [] \<and> b \<noteq> [] then Inr \<lparr>owner = a, repo = b\<rparr> else Inl InvalidIdentifier)"
proof -
  have inc: "js_includes s ''/''"
    using assms(4) by (auto simp: js_includes_char)
  have "\<exists>more. js_split CHR ''/'' s = a # b # more"
    using assms(2,3,4) by (auto simp: js_split_first js_split_no_sep)
  then obtain more where sp: "js_split CHR ''/'' s = a # b # more" ..
  show ?thesis
    unfolding parseRepoIdentifier_def using assms(1) inc sp
    by (simp del: js_includes.simps)
qed

lemma slash_decomp:
  assumes "CHR ''/'' \<in> set s"
  shows "\<exists>a b rest. CHR ''/'' \<notin> set a \<and> CHR ''/'' \<notin> set b \<and>
           (s = a @ ''/'' @ b \<or> s = a @ ''/'' @ b @ ''/'' @ rest)"
proof -
  from assms obtain a t where s: "s = a @ CHR ''/'' # t" and a: "CHR ''/'' \<notin> set a"
    by (auto dest: split_list_first)
  show ?thesis
  proof (cases "CHR ''/'' \<in> set t")
    case False
    with s a show ?thesis by auto
  next
    case True
    then obtain b rest where "t = b @ CHR ''/'' # rest" "CHR ''/'' \<notin> set b"
      by (auto dest: split_list_first)
    with s a show ?thesis by auto
  qed
qed




section \<open>The identifier parser\<close>

text \<open>
  Claim C2, as the code has it. For an input without the host marker \<open>github.com\<close>, the
  parser looks at the first two segments between slashes and at nothing after them: it
  throws the invalid-identifier error exactly when the input has no slash or one of its
  first two segments is empty, and it returns the first two segments when both are
  non-empty, whether one slash or several follow the owner.
\<close>

theorem shorthand_fails_iff:
  assumes "\<not> js_includes s ''github.com''"
  shows "(parseRepoIdentifier s = Inl InvalidIdentifier \<longleftrightarrow>
            \<not> (\<exists>ow rp rest. ow \<noteq> [] \<and> rp \<noteq> [] \<and> CHR ''/'' \<notin> set ow \<and> CHR ''/'' \<notin> set rp \<and>
                 (s = ow @ ''/'' @ rp \<or> s = ow @ ''/'' @ rp @ ''/'' @ rest))) \<and>
         (\<forall>ow rp rest. ow \<noteq> [] \<and> rp \<noteq> [] \<and> CHR ''/'' \<notin> set ow \<and> CHR ''/'' \<notin> set rp \<and>
                 (s = ow @ ''/'' @ rp \<or> s = ow @ ''/'' @ rp @ ''/'' @ rest) \<longrightarrow>
            parseRepoIdentifier s = Inr \<lparr>owner = ow, repo = rp\<rparr>)"
proof -
  have succ: "parseRepoIdentifier s = Inr \<lparr>owner = ow, repo = rp\<rparr>"
    if "ow \<noteq> []" "rp \<noteq> []" "CHR ''/'' \<notin> set ow" "CHR ''/'' \<notin> set rp"
      "s = ow @ ''/'' @ rp \<or> s = ow @ ''/'' @ rp @ ''/'' @ rest" for ow rp rest
    using shorthand_first_two [OF assms that(3,4,5)] that(1,2) by simp
  have fail: "\<exists>ow rp rest. ow \<noteq> [] \<and> rp \<noteq> [] \<and> CHR ''/'' \<notin> set ow \<and> CHR ''/'' \<notin> set rp \<and>
                 (s = ow @ ''/'' @ rp \<or> s = ow @ ''/'' @ rp @ ''/'' @ rest)"
    if ne: "parseRepoIdentifier s \<noteq> Inl InvalidIdentifier"
  proof -
    have "CHR ''/'' \<in> set s"
      using ne no_github_no_slash [OF assms] by blast
    from slash_decomp [OF this] obtain a b rest where
      d: "CHR ''/'' \<notin> set a" "CHR ''/'' \<notin> set b"
         "s = a @ ''/'' @ b \<or> s = a @ ''/'' @ b @ ''/'' @ rest"
      by blast
    from shorthand_first_two [OF assms d] ne have "a \<noteq> []" "b \<noteq> []"
      by (auto split: if_splits)
    with d show ?thesis by blast
  qed
  show ?thesis
  proof (intro conjI iffI allI impI)
    assume "parseRepoIdentifier s = Inl InvalidIdentifier"
    then show "\<not> (\<exists>ow rp rest. ow \<noteq> [] \<and> rp \<noteq> [] \<and> CHR ''/'' \<notin> set ow \<and> CHR ''/'' \<notin> set rp \<and>
                 (s = ow @ ''/'' @ rp \<or> s = ow @ ''/'' @ rp @ ''/'' @ rest))"
      using succ by fastforce
  next
    assume "\<not> (\<exists>ow rp rest. ow \<noteq> [] \<and> rp \<noteq> [] \<and> CHR ''/'' \<notin> set ow \<and> CHR ''/'' \<notin> set rp \<and>
                 (s = ow @ ''/'' @ rp \<or> s = ow @ ''/'' @ rp @ ''/'' @ rest))"
    then show "parseRepoIdentifier s = Inl InvalidIdentifier"
      using fail by blast
  next
    fix ow rp rest
    assume "ow \<noteq> [] \<and> rp \<noteq> [] \<and> CHR ''/'' \<notin> set ow \<and> CHR ''/'' \<notin> set rp \<and>
                 (s = ow @ ''/'' @ rp \<or> s = ow @ ''/'' @ rp @ ''/'' @ rest)"
    then show "parseRepoIdentifier s = Inr \<lparr>owner = ow, repo = rp\<rparr>"
      using succ by blast
  qed
qed

text \<open>
  The input \<open>a/b/c\<close> has no host marker and two slashes, and the parser accepts it: the
  claim that every slash count other than one fails does not hold.
\<close>

theorem shorthand_extra_segments_accepted:
  "\<not> js_includes ''a/b/c'' ''github.com'' \<and>
   count_list ''a/b/c'' CHR ''/'' = 2 \<and>
   parseRepoIdentifier ''a/b/c'' = Inr \<lparr>owner = ''a'', repo = ''b''\<rparr> \<and>
   parseRepoIdentifier ''a/b/c'' \<noteq> Inl InvalidIdentifier"
  by (simp add: parseRepoIdentifier_def)

theorem shorthand_fails_iff_witness:
  "\<not> js_includes ''microsoft/vscode'' ''github.com'' \<and>
   parseRepoIdentifier ''microsoft/vscode'' = Inr \<lparr>owner = ''microsoft'', repo = ''vscode''\<rparr>"
proof -
  have h: "\<not> js_includes ''microsoft/vscode'' ''github.com''"
    by simp
  have d: "''microsoft'' \<noteq> [] \<and> ''vscode'' \<noteq> [] \<and> CHR ''/'' \<notin> set ''microsoft'' \<and>
      CHR ''/'' \<notin> set ''vscode'' \<and>
      (''microsoft/vscode'' = ''microsoft'' @ ''/'' @ ''vscode'' \<or>
       ''microsoft/vscode'' = ''microsoft'' @ ''/'' @ ''vscode'' @ ''/'' @ [])"
    by simp
  have "parseRepoIdentifier ''microsoft/vscode'' = Inr \<lparr>owner = ''microsoft'', repo = ''vscode''\<rparr>"
    by (rule shorthand_fails_iff [OF h, THEN conjunct2, rule_format, OF d])
  with h show ?thesis ..
qed

text \<open>
  Claim C7, as the code has it. For every non-empty owner and repository name without a
  slash, where the repository name does not end in \<open>.git\<close>, the shorthand \<open>owner/repo\<close>
  and the URLs \<open>http(s)://[www.]github.com/owner/repo[.git]\<close> all parse to the same
  reference, with that owner and that repository name.
\<close>

theorem forms_agree:
  assumes "ow \<noteq> []" "rp \<noteq> []" "CHR ''/'' \<notin> set ow" "CHR ''/'' \<notin> set rp"
    and "\<not> suffix ''.git'' rp"
  shows "parseRepoIdentifier (ow @ ''/'' @ rp) = Inr \<lparr>owner = ow, repo = rp\<rparr> \<and>
         parseRepoIdentifier (''https://github.com/'' @ ow @ ''/'' @ rp) = Inr \<lparr>owner = ow, repo = rp\<rparr> \<and>
         parseRepoIdentifier (''https://github.com/'' @ ow @ ''/'' @ rp @ ''.git'') = Inr \<lparr>owner = ow, repo = rp\<rparr> \<and>
         parseRepoIdentifier (''https://www.github.com/'' @ ow @ ''/'' @ rp) = Inr \<lparr>owner = ow, repo = rp\<rparr> \<and>
         parseRepoIdentifier (''https://www.github.com/'' @ ow @ ''/'' @ rp @ ''.git'') = Inr \<lparr>owner = ow, repo = rp\<rparr> \<and>
         parseRepoIdentifier (''http://github.com/'' @ ow @ ''/'' @ rp) = Inr \<lparr>owner = ow, repo = rp\<rparr> \<and>
         parseRepoIdentifier (''http://github.com/'' @ ow @ ''/'' @ rp @ ''.git'') = Inr \<lparr>owner = ow, repo = rp\<rparr> \<and>
         parseRepoIdentifier (''http://www.github.com/'' @ ow @ ''/'' @ rp) = Inr \<lparr>owner = ow, repo = rp\<rparr> \<and>
         parseRepoIdentifier (''http://www.github.com/'' @ ow @ ''/'' @ rp @ ''.git'') = Inr \<lparr>owner = ow, repo = rp\<rparr>"
proof -
  note u = url_form [OF assms(3,4,5)]
  have inc: "js_includes (p @ ''github.com'' @ q) ''github.com''" for p q
    by (rule js_includes_append)
  have g: "g = [] \<or> g = ''.git''" if "g = [] \<or> g = ''.git''" for g :: string
    by (rule that)
  have 1: "parseRepoIdentifier (''https://github.com/'' @ ow @ ''/'' @ rp @ g) = Inr \<lparr>owner = ow, repo = rp\<rparr>"
    if "g = [] \<or> g = ''.git''" for g
    using u [of "''https://github.com/''" g] match_url_prefix_forms(2) [of "ow @ ''/'' @ rp @ g"]
      inc [of "''https://''" "''/'' @ ow @ ''/'' @ rp @ g"] that
    by (simp del: js_includes.simps)
  have 2: "parseRepoIdentifier (''https://www.github.com/'' @ ow @ ''/'' @ rp @ g) = Inr \<lparr>owner = ow, repo = rp\<rparr>"
    if "g = [] \<or> g = ''.git''" for g
    using u [of "''https://www.github.com/''" g] match_url_prefix_forms(4) [of "ow @ ''/'' @ rp @ g"]
      inc [of "''https://www.''" "''/'' @ ow @ ''/'' @ rp @ g"] that
    by (simp del: js_includes.simps)
  have 3: "parseRepoIdentifier (''http://github.com/'' @ ow @ ''/'' @ rp @ g) = Inr \<lparr>owner = ow, repo = rp\<rparr>"
    if "g = [] \<or> g = ''.git''" for g
    using u [of "''http://github.com/''" g] match_url_prefix_forms(1) [of "ow @ ''/'' @ rp @ g"]
      inc [of "''http://''" "''/'' @ ow @ ''/'' @ rp @ g"] that
    by (simp del: js_includes.simps)
  have 4: "parseRepoIdentifier (''http://www.github.com/'' @ ow @ ''/'' @ rp @ g) = Inr \<lparr>owner = ow, repo = rp\<rparr>"
    if "g = [] \<or> g = ''.git''" for g
    using u [of "''http://www.github.com/''" g] match_url_prefix_forms(3) [of "ow @ ''/'' @ rp @ g"]
      inc [of "''http://www.''" "''/'' @ ow @ ''/'' @ rp @ g"] that
    by (simp del: js_includes.simps)
  show ?thesis
    using bare_form [OF assms] 1 [of "[]"] 1 [of "''.git''"] 2 [of "[]"] 2 [of "''.git''"]
      3 [of "[]"] 3 [of "''.git''"] 4 [of "[]"] 4 [of "''.git''"]
    by (simp del: js_includes.simps)
qed

theorem forms_agree_witness:
  "parseRepoIdentifier ''microsoft/vscode'' = Inr \<lparr>owner = ''microsoft'', repo = ''vscode''\<rparr> \<and>
   parseRepoIdentifier ''https://github.com/microsoft/vscode'' = Inr \<lparr>owner = ''microsoft'', repo = ''vscode''\<rparr> \<and>
   parseRepoIdentifier ''https://www.github.com/microsoft/vscode.git'' = Inr \<lparr>owner = ''microsoft'', repo = ''vscode''\<rparr>"
proof -
  have h: "''microsoft'' \<noteq> []" "''vscode'' \<noteq> []" "CHR ''/'' \<notin> set ''microsoft''"
    "CHR ''/'' \<notin> set ''vscode''" "\<not> suffix ''.git'' ''vscode''"
    by (simp_all add: suffix_to_prefix)
  from forms_agree [OF h] show ?thesis
    by simp
qed

text \<open>
  For the repository name \<open>b.git\<close> the forms disagree: the shorthand keeps the name,
  the URL without a further suffix loses its last four characters.
\<close>

theorem forms_disagree_on_git_suffix:
  "parseRepoIdentifier (''a'' @ ''/'' @ ''b.git'') = Inr \<lparr>owner = ''a'', repo = ''b.git''\<rparr> \<and>
   parseRepoIdentifier (''https://github.com/'' @ ''a'' @ ''/'' @ ''b.git'') =
     Inr \<lparr>owner = ''a'', repo = ''b''\<rparr> \<and>
   parseRepoIdentifier (''a'' @ ''/'' @ ''b.git'') \<noteq>
     parseRepoIdentifier (''https://github.com/'' @ ''a'' @ ''/'' @ ''b.git'')"
  by (simp add: parseRepoIdentifier_def strip_url_prefix_def match_url_prefix_def re_lit_def
      re_opt_def strip_git_suffix_def suffix_to_prefix)



section \<open>Rounding to a double\<close>

lemma rhe_ge: "of_int k \<le> y \<Longrightarrow> k \<le> round_half_even y"
  unfolding round_half_even_def Let_def by (auto simp: le_floor_iff) linarith+

lemma rhe_le: "y \<le> of_int k \<Longrightarrow> round_half_even y \<le> k"
  unfolding round_half_even_def Let_def
  by (auto simp: floor_le_iff)

lemma rhe_below_half: "y < of_int k - 1 / 2 \<Longrightarrow> round_half_even y \<le> k - 1"
  unfolding round_half_even_def Let_def
  by (auto simp: floor_le_iff) linarith+


lemma bitlen_bounds_rat:
  assumes "0 < a"
  shows "(2::rat) powi (bitlen (int a) - 1) \<le> of_nat a" "(of_nat a :: rat) < 2 powi bitlen (int a)"
proof -
  have pos: "0 < int a" using assms by simp
  from bitlen_bounds [OF pos]
  have 1: "2 ^ nat (bitlen (int a) - 1) \<le> int a" and 2: "int a < 2 ^ nat (bitlen (int a))"
    by auto
  have ge1: "1 \<le> bitlen (int a)"
    using pos by (auto simp: bitlen_alt_def)
  have "(of_int (2 ^ nat (bitlen (int a) - 1)) :: rat) \<le> of_int (int a)"
    using 1 by (simp only: of_int_le_iff)
  then show "(2::rat) powi (bitlen (int a) - 1) \<le> of_nat a"
    using ge1 by (simp add: power_int_nonneg_exp)
  have "(of_int (int a) :: rat) < of_int (2 ^ nat (bitlen (int a)))"
    using 2 by (simp only: of_int_less_iff)
  then show "(of_nat a :: rat) < 2 powi bitlen (int a)"
    using ge1 by (simp add: power_int_nonneg_exp)
qed

lemma binary_exponent_bounds:
  assumes "0 < a" "0 < b"
  shows "(2::rat) powi binary_exponent a b \<le> of_nat a / of_nat b"
    and "(of_nat a / of_nat b :: rat) < 2 powi (binary_exponent a b + 1)"
proof -
  let ?la = "bitlen (int a)" and ?lb = "bitlen (int b)"
  let ?x = "of_nat a / of_nat b :: rat"
  have bpos: "(0::rat) < of_nat b" using assms by simp
  have lo: "(2::rat) powi (?la - ?lb - 1) \<le> ?x"
  proof -
    have "(2::rat) powi (?la - ?lb - 1) * of_nat b \<le> 2 powi (?la - ?lb - 1) * 2 powi ?lb"
      using bitlen_bounds_rat(2) [OF assms(2)] by (intro mult_left_mono) auto
    also have "\<dots> = 2 powi (?la - 1)"
      by (simp add: power_int_add [symmetric])
    also have "\<dots> \<le> of_nat a"
      by (rule bitlen_bounds_rat(1) [OF assms(1)])
    finally show ?thesis
      using bpos by (simp add: pos_le_divide_eq)
  qed
  have hi: "?x < 2 powi (?la - ?lb + 1)"
  proof -
    have "(of_nat a :: rat) < 2 powi ?la"
      by (rule bitlen_bounds_rat(2) [OF assms(1)])
    also have "\<dots> = 2 powi (?la - ?lb + 1) * 2 powi (?lb - 1)"
      by (simp add: power_int_add [symmetric])
    also have "\<dots> \<le> 2 powi (?la - ?lb + 1) * of_nat b"
      using bitlen_bounds_rat(1) [OF assms(2)] by (intro mult_left_mono) auto
    finally show ?thesis
      using bpos by (simp add: pos_divide_less_eq)
  qed
  show "(2::rat) powi binary_exponent a b \<le> ?x"
    using lo by (simp add: binary_exponent_def Let_def)
  show "?x < 2 powi (binary_exponent a b + 1)"
    using hi by (auto simp: binary_exponent_def Let_def not_le)
qed

lemma pow2_less_exp: "(2::rat) powi m < 2 powi n \<Longrightarrow> m < n"
  using power_int_increasing [of n m "2::rat"] by (cases "m < n") auto

lemma binary_exponent_unique:
  assumes "0 < a" "0 < b"
    and "(2::rat) powi e \<le> of_nat a / of_nat b" "(of_nat a / of_nat b :: rat) < 2 powi (e + 1)"
  shows "binary_exponent a b = e"
proof -
  let ?x = "of_nat a / of_nat b :: rat"
  let ?e = "binary_exponent a b"
  have "(2::rat) powi e < 2 powi (?e + 1)"
    using assms(3) binary_exponent_bounds(2) [OF assms(1,2)] by (rule le_less_trans)
  then have 1: "e < ?e + 1"
    by (rule pow2_less_exp)
  have "(2::rat) powi ?e < 2 powi (e + 1)"
    using binary_exponent_bounds(1) [OF assms(1,2)] assms(4) by (rule le_less_trans)
  then have 2: "?e < e + 1"
    by (rule pow2_less_exp)
  from 1 2 show ?thesis by simp
qed


lemma rhe_above_half:
  assumes "of_int k - 1 / 2 < y"
  shows "k \<le> round_half_even y"
proof (cases "k \<le> \<lfloor>y\<rfloor>")
  case True
  moreover have "\<lfloor>y\<rfloor> \<le> round_half_even y"
    by (simp add: round_half_even_def Let_def)
  ultimately show ?thesis by simp
next
  case False
  have "y < of_int \<lfloor>y\<rfloor> + 1"
    by linarith
  with assms have "(of_int (2 * k) :: rat) < of_int (2 * \<lfloor>y\<rfloor> + 3)"
    by simp
  then have "2 * k < 2 * \<lfloor>y\<rfloor> + 3"
    by (simp only: of_int_less_iff)
  with False have k: "k = \<lfloor>y\<rfloor> + 1"
    by simp
  with assms have "1 / 2 < y - of_int \<lfloor>y\<rfloor>"
    by simp
  then show ?thesis
    by (simp add: round_half_even_def Let_def k)
qed

lemma threshold_exponent: "binary_exponent 1 100 = - 7"
  by (rule binary_exponent_unique) simp_all

lemma threshold_value: "round_double 1 100 = 5764607523034235 / 2 ^ 59"
proof -
  have "5764607523034235 \<le> round_half_even (2 ^ 59 / 100)"
    by (rule rhe_above_half) simp
  moreover have "round_half_even (2 ^ 59 / 100) \<le> 5764607523034235"
    by (rule rhe_le) simp
  ultimately have "round_half_even (2 ^ 59 / 100) = 5764607523034235"
    by simp
  then show ?thesis
    unfolding round_double_def threshold_exponent Let_def by simp
qed

lemma round_double_ge_threshold:
  assumes "0 < a" "0 < b" "(1 / 100 :: rat) \<le> of_nat a / of_nat b"
  shows "(5764607523034235 / 2 ^ 59 :: rat) \<le> round_double a b"
proof -
  let ?x = "of_nat a / of_nat b :: rat"
  let ?e = "binary_exponent a b"
  note eb = binary_exponent_bounds [OF assms(1,2)]
  have "(2::rat) powi (- 7) < 2 powi (?e + 1)"
    using assms(3) eb(2) by simp
  then have e: "- 7 \<le> ?e"
    using pow2_less_exp [of "- 7" "?e + 1"] by simp
  show ?thesis
  proof (cases "?e = - 7")
    case True
    have "of_int 5764607523034235 - 1 / 2 < ?x * 2 ^ 59"
      using assms(3) by simp
    then have "5764607523034235 \<le> round_half_even (?x * 2 ^ 59)"
      by (rule rhe_above_half)
    then have "(of_int 5764607523034235 :: rat) \<le> of_int (round_half_even (?x * 2 ^ 59))"
      by (simp only: of_int_le_iff)
    then show ?thesis
      unfolding round_double_def Let_def True by (simp add: field_simps)
  next
    case False
    with e have e6: "- 6 \<le> ?e" by simp
    have "(2::rat) powi 52 = 2 powi ?e * 2 powi (52 - ?e)"
      by (simp add: power_int_add [symmetric])
    also have "\<dots> \<le> ?x * 2 powi (52 - ?e)"
      using eb(1) by (intro mult_right_mono) auto
    finally have "of_int (2 ^ 52) \<le> ?x * 2 powi (52 - ?e)"
      by simp
    then have "2 ^ 52 \<le> round_half_even (?x * 2 powi (52 - ?e))"
      by (rule rhe_ge)
    then have "(of_int (2 ^ 52) :: rat) \<le> of_int (round_half_even (?x * 2 powi (52 - ?e)))"
      by (simp only: of_int_le_iff)
    then have "(2::rat) powi 52 * 2 powi (?e - 52) \<le> round_double a b"
      unfolding round_double_def Let_def by (intro mult_right_mono) auto
    then have "(2::rat) powi ?e \<le> round_double a b"
      using power_int_add [of "2::rat" 52 "?e - 52"] by simp
    moreover have "(2::rat) powi (- 6) \<le> 2 powi ?e"
      using e6 by (intro power_int_increasing) auto
    ultimately show ?thesis
      by simp
  qed
qed

lemma round_double_lt_threshold:
  assumes "0 < a" "100 * a < b" "b < 2 ^ 53"
  shows "round_double a b < (5764607523034235 / 2 ^ 59 :: rat)"
proof -
  let ?x = "of_nat a / of_nat b :: rat"
  let ?e = "binary_exponent a b"
  have bpos: "0 < b" using assms by simp
  note eb = binary_exponent_bounds [OF assms(1) bpos]
  have bq: "(0::rat) < of_nat b" using bpos by simp
  have "a * 1152921504606846976 < 11529215046068469 * b"
    using assms(2,3) by simp
  then have "(of_nat (a * 1152921504606846976) :: rat) < of_nat (11529215046068469 * b)"
    by (simp only: of_nat_less_iff)
  then have mid: "?x * 2 ^ 59 < of_int 5764607523034235 - 1 / 2"
    using bq by (simp add: field_simps)
  have "64 * a < b"
    using assms(2) by simp
  then have "(of_nat (64 * a) :: rat) < of_nat b"
    by (simp only: of_nat_less_iff)
  then have "?x < 2 powi (- 6)"
    using bq by (simp add: field_simps)
  with eb(1) have "(2::rat) powi ?e < 2 powi (- 6)"
    by (rule le_less_trans)
  then have e: "?e \<le> - 7"
    using pow2_less_exp [of ?e "- 6"] by simp
  show ?thesis
  proof (cases "?e = - 7")
    case True
    from mid have "round_half_even (?x * 2 ^ 59) \<le> 5764607523034235 - 1"
      by (rule rhe_below_half)
    then have "(of_int (round_half_even (?x * 2 ^ 59)) :: rat) \<le> of_int (5764607523034235 - 1)"
      by (simp only: of_int_le_iff)
    then show ?thesis
      unfolding round_double_def Let_def True by (simp add: field_simps)
  next
    case False
    with e have e8: "?e + 1 \<le> - 7" by simp
    have "?x * 2 powi (52 - ?e) \<le> 2 powi (?e + 1) * 2 powi (52 - ?e)"
      using eb(2) by (intro mult_right_mono) auto
    also have "\<dots> = 2 powi 53"
      by (simp add: power_int_add [symmetric])
    finally have "?x * 2 powi (52 - ?e) \<le> of_int (2 ^ 53)"
      by simp
    then have "round_half_even (?x * 2 powi (52 - ?e)) \<le> 2 ^ 53"
      by (rule rhe_le)
    then have "(of_int (round_half_even (?x * 2 powi (52 - ?e))) :: rat) \<le> of_int (2 ^ 53)"
      by (simp only: of_int_le_iff)
    then have "round_double a b \<le> 2 powi 53 * 2 powi (?e - 52)"
      unfolding round_double_def Let_def by (intro mult_right_mono) auto
    then have "round_double a b \<le> 2 powi (?e + 1)"
      using power_int_add [of "2::rat" 53 "?e - 52"] by (simp add: add.commute)
    moreover have "(2::rat) powi (?e + 1) \<le> 2 powi (- 7)"
      using e8 by (intro power_int_increasing) auto
    ultimately show ?thesis
      by simp
  qed
qed

lemma threshold_value_Suc: "round_double (Suc 0) 100 = 5764607523034235 / 2 ^ 59"
  using threshold_value by simp

lemma isValidTextContent_iff:
  assumes "content \<noteq> []" "length content < 2 ^ 53"
  shows "isValidTextContent content \<longleftrightarrow> 100 * null_count content < length content"
proof (cases "null_count content = 0")
  case True
  with assms(1) show ?thesis
    by (simp add: isValidTextContent_def js_div_def threshold_value_Suc)
next
  case False
  then have c: "0 < null_count content" by simp
  have n: "0 < length content" using assms(1) by simp
  have q: "(0::rat) < of_nat (length content)" using n by simp
  have d: "js_div (null_count content) (length content) =
      Num (round_double (null_count content) (length content))"
    using False assms(1) by (simp add: js_div_def)
  have v: "isValidTextContent content \<longleftrightarrow>
      round_double (null_count content) (length content) < 5764607523034235 / 2 ^ 59"
    unfolding isValidTextContent_def Let_def d threshold_value by simp
  show ?thesis
  proof (cases "100 * null_count content < length content")
    case True
    from round_double_lt_threshold [OF c True assms(2)] True show ?thesis
      unfolding v by simp
  next
    case False
    then have "length content \<le> 100 * null_count content" by simp
    then have "(of_nat (length content) :: rat) \<le> of_nat (100 * null_count content)"
      by (simp only: of_nat_le_iff)
    then have "(1 / 100 :: rat) \<le> of_nat (null_count content) / of_nat (length content)"
      using q by (simp add: field_simps)
    from round_double_ge_threshold [OF c n this] False show ?thesis
      unfolding v by simp
  qed
qed

lemma ratio_less_iff:
  assumes "0 < n"
  shows "(of_nat c / of_nat n :: rat) < 1 / 100 \<longleftrightarrow> 100 * c < n"
proof -
  have "(of_nat c / of_nat n :: rat) < 1 / 100 \<longleftrightarrow> (of_nat (100 * c) :: rat) < of_nat n"
    using assms by (simp add: field_simps)
  also have "\<dots> \<longleftrightarrow> 100 * c < n"
    by (simp only: of_nat_less_iff)
  finally show ?thesis .
qed

section \<open>The content classifier\<close>

text \<open>
  Claim C1. For every non-empty content (a JavaScript string is shorter than \<open>2^53\<close>
  code units), the content is rejected exactly when the ratio of NUL code units to the
  length is at least \<open>1/100\<close> and accepted exactly when it is below; a content of 1000
  code units is rejected with 10 NULs and accepted with 9. The double arithmetic of the
  source and the exact ratio give the same verdict.
\<close>

theorem null_byte_ratio_threshold:
  assumes "content \<noteq> []" and "length content < 2 ^ 53"
  shows "(\<not> isValidTextContent content \<longleftrightarrow>
            (1 / 100 :: rat) \<le> of_nat (null_count content) / of_nat (length content)) \<and>
         (isValidTextContent content \<longleftrightarrow>
            (of_nat (null_count content) / of_nat (length content) :: rat) < 1 / 100) \<and>
         (length content = 1000 \<and> null_count content = 10 \<longrightarrow> \<not> isValidTextContent content) \<and>
         (length content = 1000 \<and> null_count content = 9 \<longrightarrow> isValidTextContent content)"
proof -
  have n: "0 < length content" using assms(1) by simp
  have v: "isValidTextContent content \<longleftrightarrow>
      (of_nat (null_count content) / of_nat (length content) :: rat) < 1 / 100"
    using isValidTextContent_iff [OF assms] ratio_less_iff [OF n] by simp
  have a: "length content = 1000 \<and> null_count content = 10 \<longrightarrow> \<not> isValidTextContent content"
    using isValidTextContent_iff [OF assms] by simp
  have b: "length content = 1000 \<and> null_count content = 9 \<longrightarrow> isValidTextContent content"
    using isValidTextContent_iff [OF assms] by simp
  from v a b show ?thesis
    by (simp add: not_less)
qed

theorem null_byte_ratio_threshold_witness:
  "\<not> isValidTextContent (replicate 10 (CHR 0x00) @ replicate 990 CHR ''a'') \<and>
   isValidTextContent (replicate 9 (CHR 0x00) @ replicate 991 CHR ''a'')"
proof -
  let ?c10 = "replicate 10 (CHR 0x00) @ replicate 990 CHR ''a''"
  let ?c9 = "replicate 9 (CHR 0x00) @ replicate 991 CHR ''a''"
  have h10: "?c10 \<noteq> []" "length ?c10 < 2 ^ 53" by simp_all
  have h9: "?c9 \<noteq> []" "length ?c9 < 2 ^ 53" by simp_all
  have n10: "length ?c10 = 1000 \<and> null_count ?c10 = 10"
    by (simp add: null_count_def)
  have n9: "length ?c9 = 1000 \<and> null_count ?c9 = 9"
    by (simp add: null_count_def)
  from null_byte_ratio_threshold [OF h10] n10 null_byte_ratio_threshold [OF h9] n9
  show ?thesis by blast
qed

section \<open>Facts about the walk\<close>


lemma isBinaryFile_iff:
  "isBinaryFile f \<longleftrightarrow> (\<exists>ext \<in> set binaryExtensions. suffix ext (toLowerCase f))"
  by (simp add: isBinaryFile_def list_ex_iff)








lemma walk_entries_Nil: "walk_entries mm rn br pats [] st = st"
  by (simp add: walk_entries_def)

lemma walk_entries_Cons:
  "walk_entries mm rn br pats (e # es) st =
     walk_entries mm rn br pats es (process_entry mm rn br pats e st)"
  by (simp add: walk_entries_def)

lemma walk_entries_append:
  "walk_entries mm rn br pats (es @ es') st =
     walk_entries mm rn br pats es' (walk_entries mm rn br pats es st)"
  by (simp add: walk_entries_def)


lemma entry_try_block_fails_iff:
  "entry_try_block p e st = Inl err \<longleftrightarrow> getData e = Inl err"
  by (auto simp: entry_try_block_def split: sum.splits)

lemma toLowerCase_append: "toLowerCase (a @ b) = toLowerCase a @ toLowerCase b"
  by (simp add: toLowerCase_def)

lemma isBinaryFile_case_variant:
  assumes "ext \<in> set binaryExtensions" "toLowerCase suf = ext"
  shows "isBinaryFile (stem @ suf)"
proof -
  have "suffix ext (toLowerCase (stem @ suf))"
    using assms(2) by (simp add: toLowerCase_append suffix_def)
  with assms(1) show ?thesis
    by (auto simp: isBinaryFile_iff)
qed

lemma split_lines_no_lf: "CHR 0x0A \<notin> set l \<Longrightarrow> split_lines l = [l]"
  by (induction l rule: split_lines.induct) auto

lemma split_lines_ne: "split_lines s \<noteq> []"
  by (induction s rule: split_lines.induct) (auto split: list.splits)

lemma split_lines_lf:
  "CHR 0x0A \<notin> set l \<Longrightarrow> l = [] \<or> last l \<noteq> CHR 0x0D \<Longrightarrow>
     split_lines (l @ CHR 0x0A # rest) = l # split_lines rest"
proof (induction l)
  case Nil
  show ?case by (cases rest) auto
next
  case (Cons x l)
  then show ?case by (cases l) (auto split: if_splits)
qed

lemma split_lines_crlf:
  "CHR 0x0A \<notin> set l \<Longrightarrow> split_lines (l @ CHR 0x0D # CHR 0x0A # rest) = l # split_lines rest"
proof (induction l)
  case Nil
  show ?case by simp
next
  case (Cons x l)
  then show ?case by (cases l) auto
qed

lemma split_lines_pieces: "l \<in> set (split_lines s) \<Longrightarrow> CHR 0x0A \<notin> set l"
  by (induction s arbitrary: l rule: split_lines.induct) (auto split: list.splits if_splits)

lemma split_lines_length: "length (split_lines s) = 1 + length (filter (\<lambda>c. c = CHR 0x0A) s)"
  by (induction s rule: split_lines.induct) (auto split: list.splits simp: split_lines_ne)

section \<open>The archive walker\<close>



text \<open>
  Claim C4. When reading one entry fails inside the \<open>try\<close> block (the entry is a file
  that is neither ignored nor binary by extension, and decoding it throws), the block
  fails with that error, the round counts it under skipped-by-error and changes nothing
  else, and the walk goes on: the walk over the entries before it, the entry, and the
  entries after it is the walk over the entries after it, started from the state the
  earlier entries left with one more error counted.
\<close>

theorem entry_failure_isolated:
  assumes "\<not> isDirectory e"
    and "\<not> shouldIgnorePath mm (remove_first (rn @ ''-'' @ br @ ''/'') (entryName e)) pats"
    and "\<not> isBinaryFile (remove_first (rn @ ''-'' @ br @ ''/'') (entryName e))"
    and "getData e = Inl err"
  shows "entry_try_block (remove_first (rn @ ''-'' @ br @ ''/'') (entryName e)) e st = Inl err \<and>
         process_entry mm rn br pats e st =
           st\<lparr>skippedFilesByError := skippedFilesByError st + 1\<rparr> \<and>
         walk_entries mm rn br pats (es1 @ e # es2) st =
           walk_entries mm rn br pats es2
             ((walk_entries mm rn br pats es1 st)
                \<lparr>skippedFilesByError := skippedFilesByError (walk_entries mm rn br pats es1 st) + 1\<rparr>)"
proof -
  let ?p = "remove_first (rn @ ''-'' @ br @ ''/'') (entryName e)"
  have f: "entry_try_block ?p e s = Inl err" for s
    using assms(4) by (simp add: entry_try_block_fails_iff)
  have step: "process_entry mm rn br pats e s = s\<lparr>skippedFilesByError := skippedFilesByError s + 1\<rparr>" for s
    using assms(1,2,3) f [of s] by (simp add: process_entry_def)
  have "walk_entries mm rn br pats (es1 @ e # es2) st =
      walk_entries mm rn br pats es2
        (process_entry mm rn br pats e (walk_entries mm rn br pats es1 st))"
    by (simp add: walk_entries_append walk_entries_Cons)
  with f [of st] step [of st] step [of "walk_entries mm rn br pats es1 st"] show ?thesis
    by simp
qed

theorem entry_failure_isolated_witness:
  "walk_entries (\<lambda>p pat. False) ''repo'' ''main'' []
     ([] @ \<lparr>entryName = ''repo-main/bad.txt'', isDirectory = False, getData = Inl (Error ''crc'')\<rparr> #
        [\<lparr>entryName = ''repo-main/ok.txt'', isDirectory = False, getData = Inr ''ok''\<rparr>])
     (initial_state []) =
   walk_entries (\<lambda>p pat. False) ''repo'' ''main'' []
     [\<lparr>entryName = ''repo-main/ok.txt'', isDirectory = False, getData = Inr ''ok''\<rparr>]
     ((initial_state [])\<lparr>skippedFilesByError := 1\<rparr>)"
proof -
  let ?bad = "\<lparr>entryName = ''repo-main/bad.txt'', isDirectory = False, getData = Inl (Error ''crc'')\<rparr>"
  have h1: "\<not> isDirectory ?bad" by simp
  have h2: "\<not> shouldIgnorePath (\<lambda>p pat. False)
      (remove_first (''repo'' @ ''-'' @ ''main'' @ ''/'') (entryName ?bad)) []"
    by simp
  have h3: "\<not> isBinaryFile (remove_first (''repo'' @ ''-'' @ ''main'' @ ''/'') (entryName ?bad))"
    by code_simp
  have h4: "getData ?bad = Inl (Error ''crc'')" by simp
  from entry_failure_isolated [where st = "initial_state []" and ?es1.0 = "[]" and
      ?es2.0 = "[\<lparr>entryName = ''repo-main/ok.txt'', isDirectory = False, getData = Inr ''ok''\<rparr>]",
      OF h1 h2 h3 h4]
  show ?thesis
    by (simp add: walk_entries_Nil initial_state_def)
qed

text \<open>
  Claim C5. A path that ends in an extension of the binary list, in any mix of upper
  and lower case, is binary whatever the file holds. The round for such an entry does
  not depend on \<open>getData\<close> at all: it is the same for every content and for a read that
  would throw. When the entry is a file that is not ignored, the round counts it under
  skipped-as-binary and changes nothing else.
\<close>

theorem binary_extension_short_circuit:
  assumes "ext \<in> set binaryExtensions" and "toLowerCase suf = ext"
    and "remove_first (rn @ ''-'' @ br @ ''/'') (entryName e) = stem @ suf"
  shows "isBinaryFile (stem @ suf) \<and>
         process_entry mm rn br pats (e\<lparr>getData := d\<rparr>) st = process_entry mm rn br pats e st \<and>
         (\<not> isDirectory e \<and> \<not> shouldIgnorePath mm (stem @ suf) pats \<longrightarrow>
            process_entry mm rn br pats e st =
              st\<lparr>skippedFilesByBinary := skippedFilesByBinary st + 1\<rparr>)"
proof -
  have b: "isBinaryFile (stem @ suf)"
    using assms(1,2) by (rule isBinaryFile_case_variant)
  with assms(3) show ?thesis
    by (simp add: process_entry_def Let_def)
qed

theorem binary_extension_short_circuit_witness:
  "isBinaryFile (''logo'' @ ''.PNG'') \<and>
   process_entry (\<lambda>p pat. False) ''repo'' ''main'' []
     \<lparr>entryName = ''repo-main/logo.PNG'', isDirectory = False, getData = Inr ''plain text''\<rparr>
     (initial_state []) =
   (initial_state [])\<lparr>skippedFilesByBinary := skippedFilesByBinary (initial_state []) + 1\<rparr>"
proof -
  let ?e = "\<lparr>entryName = ''repo-main/logo.PNG'', isDirectory = False, getData = Inr ''plain text''\<rparr>"
  have h1: "''.png'' \<in> set binaryExtensions"
    by (simp add: binaryExtensions_def)
  have h2: "toLowerCase ''.PNG'' = ''.png''"
    by code_simp
  have h3: "remove_first (''repo'' @ ''-'' @ ''main'' @ ''/'') (entryName ?e) = ''logo'' @ ''.PNG''"
    by simp
  have h4: "\<not> isDirectory ?e \<and> \<not> shouldIgnorePath (\<lambda>p pat. False) (''logo'' @ ''.PNG'') []"
    by simp
  from binary_extension_short_circuit [OF h1 h2 h3, of "\<lambda>p pat. False" "[]" "Inr []" "initial_state []"] h4
  show ?thesis by blast
qed



text \<open>
  Claim C9. The empty content has no NUL and length 0; \<open>0 / 0\<close> is \<open>NaN\<close>, which is not
  below the threshold, so the empty content is not valid text. An empty file that is
  neither ignored nor binary by extension is counted under skipped-as-invalid-text; it
  is not counted as processed and adds nothing to the document.
\<close>

theorem empty_content_skipped:
  assumes "\<not> isDirectory e"
    and "\<not> shouldIgnorePath mm (remove_first (rn @ ''-'' @ br @ ''/'') (entryName e)) pats"
    and "\<not> isBinaryFile (remove_first (rn @ ''-'' @ br @ ''/'') (entryName e))"
    and "getData e = Inr []"
  shows "js_div (null_count []) (length ([] :: string)) = NaN \<and>
         \<not> js_less NaN (Num (round_double 1 100)) \<and>
         \<not> isValidTextContent [] \<and>
         process_entry mm rn br pats e st =
           st\<lparr>skippedFilesByValidation := skippedFilesByValidation st + 1\<rparr>"
proof -
  have d: "js_div (null_count []) (length ([] :: string)) = NaN"
    by (simp add: js_div_def null_count_def)
  have v: "\<not> isValidTextContent []"
    unfolding isValidTextContent_def Let_def d by simp
  have "entry_try_block (remove_first (rn @ ''-'' @ br @ ''/'') (entryName e)) e st =
      Inr (st\<lparr>skippedFilesByValidation := skippedFilesByValidation st + 1\<rparr>)"
    using assms(4) v by (simp add: entry_try_block_def)
  then have "process_entry mm rn br pats e st =
      st\<lparr>skippedFilesByValidation := skippedFilesByValidation st + 1\<rparr>"
    using assms(1,2,3) by (simp add: process_entry_def)
  with d v show ?thesis by simp
qed

theorem empty_content_skipped_witness:
  "process_entry (\<lambda>p pat. False) ''repo'' ''main'' []
     \<lparr>entryName = ''repo-main/empty.txt'', isDirectory = False, getData = Inr []\<rparr>
     (initial_state []) =
   (initial_state [])\<lparr>skippedFilesByValidation := skippedFilesByValidation (initial_state []) + 1\<rparr>"
proof -
  let ?e = "\<lparr>entryName = ''repo-main/empty.txt'', isDirectory = False, getData = Inr []\<rparr>"
  have h1: "\<not> isDirectory ?e" by simp
  have h2: "\<not> shouldIgnorePath (\<lambda>p pat. False)
      (remove_first (''repo'' @ ''-'' @ ''main'' @ ''/'') (entryName ?e)) []"
    by simp
  have h3: "\<not> isBinaryFile (remove_first (''repo'' @ ''-'' @ ''main'' @ ''/'') (entryName ?e))"
    by code_simp
  have h4: "getData ?e = Inr []" by simp
  from empty_content_skipped [OF h1 h2 h3 h4, of "initial_state []"]
  show ?thesis by (elim conjE)
qed

section \<open>The body lines of a file\<close>

text \<open>
  Claim C8. The paragraphs added for a content are its lines, in order, an empty line
  as one space; they come after the paragraphs already there. The lines are cut at each
  line feed, and a carriage return right before the line feed goes with it: there is one
  more paragraph than there are line feeds, no paragraph is empty or holds a line feed.
  The content \<open>a CR LF b LF LF c\<close> gives the four paragraphs \<open>a\<close>, \<open>b\<close>, one space, \<open>c\<close>.
\<close>

theorem body_line_splitting:
  "map ptext (addFileContent content []) =
     map (\<lambda>line. if line = [] then '' '' else line) (split_lines content) \<and>
   addFileContent content chs = chs @ addFileContent content [] \<and>
   length (addFileContent content []) = 1 + length (filter (\<lambda>c. c = CHR 0x0A) content) \<and>
   (\<forall>par \<in> set (addFileContent content []). ptext par \<noteq> [] \<and> CHR 0x0A \<notin> set (ptext par)) \<and>
   (CHR 0x0A \<notin> set l \<longrightarrow> split_lines l = [l]) \<and>
   (CHR 0x0A \<notin> set l \<and> (l = [] \<or> last l \<noteq> CHR 0x0D) \<longrightarrow>
      split_lines (l @ CHR 0x0A # rest) = l # split_lines rest) \<and>
   (CHR 0x0A \<notin> set l \<longrightarrow> split_lines (l @ CHR 0x0D # CHR 0x0A # rest) = l # split_lines rest) \<and>
   map ptext (addFileContent
       [CHR ''a'', CHR 0x0D, CHR 0x0A, CHR ''b'', CHR 0x0A, CHR 0x0A, CHR ''c''] []) =
     [''a'', ''b'', '' '', ''c'']"
proof -
  have 1: "map ptext (addFileContent content []) =
     map (\<lambda>line. if line = [] then '' '' else line) (split_lines content)"
    by (simp add: addFileContent_def text_paragraph_def comp_def)
  have 2: "addFileContent content chs = chs @ addFileContent content []"
    by (simp add: addFileContent_def)
  have 3: "length (addFileContent content []) = 1 + length (filter (\<lambda>c. c = CHR 0x0A) content)"
    by (simp add: addFileContent_def split_lines_length)
  have 4: "\<forall>par \<in> set (addFileContent content []). ptext par \<noteq> [] \<and> CHR 0x0A \<notin> set (ptext par)"
    by (auto simp: addFileContent_def text_paragraph_def dest: split_lines_pieces)
  have 8: "map ptext (addFileContent
       [CHR ''a'', CHR 0x0D, CHR 0x0A, CHR ''b'', CHR 0x0A, CHR 0x0A, CHR ''c''] []) =
     [''a'', ''b'', '' '', ''c'']"
    by (simp add: addFileContent_def text_paragraph_def)
  from 1 2 3 4 8 show ?thesis
    using split_lines_no_lf split_lines_lf split_lines_crlf by blast
qed

theorem body_line_splitting_witness:
  "split_lines (''b'' @ CHR 0x0A # []) = ''b'' # split_lines [] \<and>
   split_lines (''a'' @ CHR 0x0D # CHR 0x0A # ''b'') = ''a'' # split_lines ''b'' \<and>
   split_lines ''c'' = [''c''] \<and>
   map ptext (addFileContent
       [CHR ''a'', CHR 0x0D, CHR 0x0A, CHR ''b'', CHR 0x0A, CHR 0x0A, CHR ''c''] []) =
     [''a'', ''b'', '' '', ''c'']"
proof -
  have hb: "CHR 0x0A \<notin> set ''b'' \<and> (''b'' = [] \<or> last ''b'' \<noteq> CHR 0x0D)" by simp
  have ha: "CHR 0x0A \<notin> set ''a''" by simp
  have hc: "CHR 0x0A \<notin> set ''c''" by simp
  from body_line_splitting [of "[]" "[]" "''b''" "[]"] hb
  have 1: "split_lines (''b'' @ CHR 0x0A # []) = ''b'' # split_lines []"
    by blast
  from body_line_splitting [of "[]" "[]" "''a''" "''b''"] ha
  have 2: "split_lines (''a'' @ CHR 0x0D # CHR 0x0A # ''b'') = ''a'' # split_lines ''b''"
    by blast
  from body_line_splitting [of "[]" "[]" "''c''" "[]"] hc
  have 3: "split_lines ''c'' = [''c'']"
    by blast
  from body_line_splitting [of "[]" "[]" "''c''" "[]"]
  have 4: "map ptext (addFileContent
       [CHR ''a'', CHR 0x0D, CHR 0x0A, CHR ''b'', CHR 0x0A, CHR 0x0A, CHR ''c''] []) =
     [''a'', ''b'', '' '', ''c'']"
    by (elim conjE)
  from 1 2 3 4 show ?thesis by (intro conjI)
qed

end
